theory Spec2Isabelle
  imports Main "HOL-Library.Sublist"
begin

section \<open>The patch script apply\_cache\_fix.py\<close>

text \<open>
  The script reads one TypeScript file, applies one \<open>re.sub\<close> and two \<open>str.replace\<close>
  calls to its text, and writes the text back when it changed. Text is modelled as
  \<open>string\<close>; every pattern of the script is ASCII, so the model does not depend
  on how the characters outside ASCII are counted.
\<close>

subsection \<open>String constants of the script\<close>

text \<open>
  A backslash cannot be written inside an Isabelle string literal. The constants that
  contain backslashes (\<open>FILE_PATH\<close> and the raw string \<open>old_func\<close>) are written
  with the character \<open>~\<close> in place of each backslash and passed through \<open>raw\<close>, which
  puts the backslashes back. No constant of the script contains \<open>~\<close>. A multi-line
  string is written as the list of its lines, joined by \<open>join_lines\<close>.
\<close>

definition backslash :: char where
  "backslash = CHR 0x5C"

definition newline :: char where
  "newline = CHR 0x0A"

definition raw :: "string \<Rightarrow> string" where
  "raw s = map (\<lambda>c. if c = CHR ''~'' then backslash else c) s"

fun join_lines :: "string list \<Rightarrow> string" where
  "join_lines [] = []"
| "join_lines [l] = l"
| "join_lines (l # m # ls) = l @ newline # join_lines (m # ls)"

definition FILE_PATH :: string where
  "FILE_PATH = raw ''worker~src~integrations~twelvedata.ts''"

definition old_func :: string where
  "old_func = raw (join_lines
    [''function getCachedData<T>~(key: string~): T ~| null ~{'',
     ''    const cached = cache~.get~(key~);'',
     ''    if ~(cached && ~(Date~.now~(~) - cached~.timestamp~) < CACHE_TTL~) ~{'',
     ''        const ageSeconds = Math~.round~(~(Date~.now~(~) - cached~.timestamp~) / 1000~);'',
     ''        console~.log~(`~[Cache~] Hit for ~$~{key~} ~(~$~{ageSeconds~}s old~)`~);'',
     ''        return cached~.data;'',
     ''    ~}'',
     ''    return null;'',
     ''~}''])"

definition new_func :: string where
  "new_func = join_lines
    [''function getCachedData<T>(key: string, ignoreExpiry: boolean = false): T | null {'',
     ''    const cached = cache.get(key);'',
     ''    if (!cached) return null;'',
     ''    '',
     ''    const ageSeconds = Math.round((Date.now() - cached.timestamp) / 1000);'',
     ''    '',
     ''    // When rate limited, return cache regardless of age'',
     ''    if (ignoreExpiry) {'',
     ''        console.log(`[Cache] Hit for ${key} (${ageSeconds}s old) - ignoring expiry`);'',
     ''        return cached.data;'',
     ''    }'',
     ''    '',
     ''    // Normal: check TTL'',
     ''    if ((Date.now() - cached.timestamp) < CACHE_TTL) {'',
     ''        console.log(`[Cache] Hit for ${key} (${ageSeconds}s old)`);'',
     ''        return cached.data;'',
     ''    }'',
     ''    '',
     ''    return null;'',
     ''}'']"

definition candles_old :: string where
  "candles_old = ''const cachedData = getCachedData<PricePoint[]>(cacheKey);''"

definition candles_new :: string where
  "candles_new = ''const cachedData = getCachedData<PricePoint[]>(cacheKey, true);''"

definition quote_old :: string where
  "quote_old = ''const cachedData = getCachedData<{ price: number; change: number; changePercent: number }>(cacheKey);''"

definition quote_new :: string where
  "quote_new = ''const cachedData = getCachedData<{ price: number; change: number; changePercent: number }>(cacheKey, true);''"

subsection \<open>Python's \<open>str.replace\<close>\<close>

text \<open>
  \<open>s.replace(old, new)\<close> scans \<open>s\<close> from the left and replaces every occurrence of
  \<open>old\<close> that does not overlap an occurrence already replaced. With an empty \<open>old\<close>
  Python puts \<open>new\<close> before every character and at the end.
\<close>

function replace_scan :: "string \<Rightarrow> string \<Rightarrow> string \<Rightarrow> string" where
  "replace_scan old new [] = []"
| "replace_scan old new (c # s) =
     (if old \<noteq> [] \<and> prefix old (c # s)
      then new @ replace_scan old new (drop (length old) (c # s))
      else c # replace_scan old new s)"
  by pat_completeness auto
termination
  by (relation "measure (\<lambda>(old, new, s). length s)") (auto simp: neq_Nil_conv)

definition str_replace :: "string \<Rightarrow> string \<Rightarrow> string \<Rightarrow> string" where
  "str_replace s old new =
     (if old = [] then new @ concat (map (\<lambda>c. c # new) s) else replace_scan old new s)"

subsection \<open>The fragment of Python's \<open>re\<close> that the script uses\<close>

text \<open>
  The pattern of the script is a sequence of ordinary characters and of escaped
  punctuation. The model parses that fragment and the dot: a backslash followed by a
  character that is not alphanumeric stands for the character, a dot is the wildcard,
  every other metacharacter and every escape of a letter or digit is outside the
  fragment (\<open>None\<close>), as is a replacement template with a backslash.
\<close>

datatype node = Literal char | AnyChar

definition is_alnum :: "char \<Rightarrow> bool" where
  "is_alnum c = (let n = of_char c :: nat in
     (48 \<le> n \<and> n \<le> 57) \<or> (65 \<le> n \<and> n \<le> 90) \<or> (97 \<le> n \<and> n \<le> 122))"

definition is_special :: "char \<Rightarrow> bool" where
  "is_special c = (c \<in> set ''^$*+?{}[]|()'')"

fun sre_parse :: "string \<Rightarrow> node list option" where
  "sre_parse [] = Some []"
| "sre_parse [c] =
     (if c = backslash \<or> is_special c then None
      else if c = CHR ''.'' then Some [AnyChar] else Some [Literal c])"
| "sre_parse (c # d # s) =
     (if c = backslash then
        (if is_alnum d then None else map_option ((#) (Literal d)) (sre_parse s))
      else if is_special c then None
      else if c = CHR ''.'' then map_option ((#) AnyChar) (sre_parse (d # s))
      else map_option ((#) (Literal c)) (sre_parse (d # s)))"

fun node_matches :: "bool \<Rightarrow> node \<Rightarrow> char \<Rightarrow> bool" where
  "node_matches dotall (Literal a) c = (a = c)"
| "node_matches dotall AnyChar c = (if dotall then True else c \<noteq> newline)"

fun match_here :: "bool \<Rightarrow> node list \<Rightarrow> string \<Rightarrow> bool" where
  "match_here dotall [] s = True"
| "match_here dotall (n # ns) [] = False"
| "match_here dotall (n # ns) (c # s) =
     (if node_matches dotall n c then match_here dotall ns s else False)"

function sub_scan :: "bool \<Rightarrow> node list \<Rightarrow> string \<Rightarrow> string \<Rightarrow> string" where
  "sub_scan dotall ns repl [] = []"
| "sub_scan dotall ns repl (c # s) =
     (if ns \<noteq> [] \<and> match_here dotall ns (c # s)
      then repl @ sub_scan dotall ns repl (drop (length ns) (c # s))
      else c # sub_scan dotall ns repl s)"
  by pat_completeness auto
termination
  by (relation "measure (\<lambda>(dotall, ns, repl, s). length s)") (auto simp: neq_Nil_conv)

definition re_sub :: "string \<Rightarrow> string \<Rightarrow> string \<Rightarrow> bool \<Rightarrow> string option" where
  "re_sub pattern repl s dotall =
     (case sre_parse pattern of
        None \<Rightarrow> None
      | Some ns \<Rightarrow>
          if backslash \<in> set repl then None
          else if ns = [] then Some (repl @ concat (map (\<lambda>c. c # repl) s))
          else Some (sub_scan dotall ns repl s))"

subsection \<open>The three fixes (lines 16--63 of the script)\<close>

text \<open>
  \<open>transform\<close> is the text transformation of \<open>apply_fixes\<close>: the value of \<open>content\<close>
  after line 63 as a function of its value after line 12. \<open>None\<close> stands for an
  exception raised by \<open>re.sub\<close>.
\<close>

definition transform :: "string \<Rightarrow> string option" where
  "transform content =
     (case re_sub old_func new_func content True of
        None \<Rightarrow> None
      | Some content1 \<Rightarrow>
          Some (str_replace (str_replace content1 candles_old candles_new)
                  quote_old quote_new))"

subsection \<open>Files, exceptions and the console\<close>

text \<open>
  A file body is the text that the bytes of the file decode to, or \<open>Undecodable\<close> when
  the bytes are not UTF-8. Both \<open>open\<close> calls of the script are in text mode without a
  \<open>newline\<close> argument: reading turns every \<open>CR LF\<close> and every other \<open>CR\<close> into \<open>LF\<close>,
  and writing turns every \<open>LF\<close> into the line separator of the host, which is \<open>CR LF\<close>
  on Windows. Opening a missing or unreadable file, decoding, opening an unwritable
  file and running out of space while writing are the ways in which the two
  \<open>with open\<close> blocks raise. A write that runs out of space leaves the part already
  written.

  A call of \<open>print\<close> raises when the standard output does not take the line: a console
  whose encoding has no emoji raises \<open>UnicodeEncodeError\<close> on the three lines of the
  script that begin with one, and a closed or broken one raises on every line.
\<close>

datatype platform = Posix | Windows

datatype exn =
    FileNotFoundError
  | PermissionError
  | UnicodeDecodeError
  | UnicodeEncodeError
  | OSError
  | re_error
  | SystemExit nat

text \<open>Every exception class above derives from \<open>Exception\<close>, except \<open>SystemExit\<close>.\<close>

fun is_Exception :: "exn \<Rightarrow> bool" where
  "is_Exception (SystemExit n) = False"
| "is_Exception e = True"

datatype line =
    Reading_file
  | Applying_Fix_1
  | Applying_Fix_2
  | Applying_Fix_3_4
  | No_changes_applied
  | Writing_updated_file
  | Successfully_applied
  | Next_steps
  | Cd_worker
  | Npm_run_deploy
  | Error exn

text \<open>The lines 66, 73 and 84 of the script begin with an emoji.\<close>

fun has_emoji :: "line \<Rightarrow> bool" where
  "has_emoji No_changes_applied = True"
| "has_emoji Successfully_applied = True"
| "has_emoji (Error e) = True"
| "has_emoji l = False"

datatype console = Encodes_all | Ascii_only | Broken

fun console_error :: "console \<Rightarrow> line \<Rightarrow> exn option" where
  "console_error Encodes_all l = None"
| "console_error Ascii_only l = (if has_emoji l then Some UnicodeEncodeError else None)"
| "console_error Broken l = Some OSError"

definition carriage_return :: char where
  "carriage_return = CHR 0x0D"

fun universal_newlines :: "string \<Rightarrow> string" where
  "universal_newlines [] = []"
| "universal_newlines [c] = (if c = carriage_return then [newline] else [c])"
| "universal_newlines (c # d # s) =
     (if c = carriage_return
      then (if d = newline then newline # universal_newlines s
            else newline # universal_newlines (d # s))
      else c # universal_newlines (d # s))"

fun write_newlines :: "platform \<Rightarrow> string \<Rightarrow> string" where
  "write_newlines Posix s = s"
| "write_newlines Windows s =
     concat (map (\<lambda>c. if c = newline then [carriage_return, newline] else [c]) s)"

datatype file_body = Text string | Undecodable

record text_file =
  body :: file_body
  readable :: bool
  writable :: bool

record world =
  files :: "string \<rightharpoonup> text_file"
  free_space :: nat
  stdout :: "line list"
  console :: console
  host :: platform

text \<open>
  A statement of the script takes the world and gives the new world with a value or
  with the exception it raised; \<open>and_then\<close> runs the next statement unless the first
  one raised.
\<close>

type_synonym 'a action = "world \<Rightarrow> (exn + 'a) \<times> world"

definition return :: "'a \<Rightarrow> 'a action" where
  "return x w = (Inr x, w)"

definition and_then :: "'a action \<Rightarrow> ('a \<Rightarrow> 'b action) \<Rightarrow> 'b action" where
  "and_then m f w = (case m w of (Inl e, w') \<Rightarrow> (Inl e, w') | (Inr x, w') \<Rightarrow> f x w')"

definition print :: "line \<Rightarrow> unit action" where
  "print l w =
     (case console_error (console w) l of
        Some e \<Rightarrow> (Inl e, w)
      | None \<Rightarrow> (Inr (), w\<lparr>stdout := stdout w @ [l]\<rparr>))"

definition read_text :: "world \<Rightarrow> string \<Rightarrow> exn + string" where
  "read_text w path =
     (case files w path of
        None \<Rightarrow> Inl FileNotFoundError
      | Some f \<Rightarrow>
          if \<not> readable f then Inl PermissionError
          else (case body f of
                  Undecodable \<Rightarrow> Inl UnicodeDecodeError
                | Text s \<Rightarrow> Inr (universal_newlines s)))"

definition write_text :: "world \<Rightarrow> string \<Rightarrow> string \<Rightarrow> exn option \<times> world" where
  "write_text w path s =
     (let f = (case files w path of
                 None \<Rightarrow> \<lparr>body = Text [], readable = True, writable = True\<rparr>
               | Some f \<Rightarrow> f);
          out = write_newlines (host w) s
      in if \<not> writable f then (Some PermissionError, w)
         else if length out \<le> free_space w
         then (None, w\<lparr>files := (files w)(path \<mapsto> f\<lparr>body := Text out\<rparr>)\<rparr>)
         else (Some OSError,
               w\<lparr>files := (files w)(path \<mapsto> f\<lparr>body := Text (take (free_space w) out)\<rparr>)\<rparr>))"

definition read_file :: "string \<Rightarrow> string action" where
  "read_file path w = (read_text w path, w)"

definition write_file :: "string \<Rightarrow> string \<Rightarrow> unit action" where
  "write_file path s w =
     (case write_text w path s of (Some e, w') \<Rightarrow> (Inl e, w') | (None, w') \<Rightarrow> (Inr (), w'))"

definition substituted :: "string option \<Rightarrow> string action" where
  "substituted r w = (case r of None \<Rightarrow> (Inl re_error, w) | Some s \<Rightarrow> (Inr s, w))"

subsection \<open>\<open>apply_fixes\<close> and the entry point\<close>

definition apply_fixes :: "bool action" where
  "apply_fixes =
     and_then (print Reading_file) (\<lambda>_.
     and_then (read_file FILE_PATH) (\<lambda>content.
     let original = content in
     and_then (print Applying_Fix_1) (\<lambda>_.
     and_then (substituted (re_sub old_func new_func content True)) (\<lambda>content1.
     and_then (print Applying_Fix_2) (\<lambda>_.
     let content2 = str_replace content1 candles_old candles_new in
     and_then (print Applying_Fix_3_4) (\<lambda>_.
     let content3 = str_replace content2 quote_old quote_new in
     if content3 = original
     then and_then (print No_changes_applied) (\<lambda>_. return False)
     else and_then (print Writing_updated_file) (\<lambda>_.
          and_then (write_file FILE_PATH content3) (\<lambda>_.
          and_then (print Successfully_applied) (\<lambda>_.
          and_then (print Next_steps) (\<lambda>_.
          and_then (print Cd_worker) (\<lambda>_.
          and_then (print Npm_run_deploy) (\<lambda>_.
          return True))))))))))))"

text \<open>
  The \<open>try\<close> statement of the entry point. Its body ends by raising \<open>SystemExit\<close>
  (the call of \<open>exit\<close>) or the exception of \<open>apply_fixes\<close>. The handler takes the
  exceptions that derive from \<open>Exception\<close>, prints and raises \<open>SystemExit(1)\<close>; an
  exception that its own \<open>print\<close> raises leaves the handler. An exception other than
  \<open>SystemExit\<close> that leaves the \<open>try\<close> statement ends the run with a traceback and the
  exit status 1.
\<close>

definition try_body :: "world \<Rightarrow> exn \<times> world" where
  "try_body w =
     (case apply_fixes w of
        (Inl e, w') \<Rightarrow> (e, w')
      | (Inr success, w') \<Rightarrow> (SystemExit (if success then 0 else 1), w'))"

definition try_except :: "world \<Rightarrow> exn \<times> world" where
  "try_except w =
     (case try_body w of
        (e, w') \<Rightarrow>
          if is_Exception e
          then (case print (Error e) w' of
                  (Inl e', w'') \<Rightarrow> (e', w'')
                | (Inr u, w'') \<Rightarrow> (SystemExit 1, w''))
          else (e, w'))"

datatype outcome = Exit nat | Traceback exn


definition main :: "world \<Rightarrow> outcome \<times> world" where
  "main w =
     (case try_except w of
        (SystemExit n, w') \<Rightarrow> (Exit n, w')
      | (e, w') \<Rightarrow> (Traceback e, w'))"

subsection \<open>The patch steps as the specification words them\<close>

text \<open>
  \<open>old_text\<close> is the function definition that the pattern \<open>old_func\<close> describes, with
  the escapes removed; \<open>old_signature\<close> is its first line. \<open>add_true_argument\<close> puts
  the argument \<open>true\<close> before the closing parenthesis of a statement that ends in
  \<open>);\<close>.
\<close>

definition old_text :: string where
  "old_text = join_lines
    [''function getCachedData<T>(key: string): T | null {'',
     ''    const cached = cache.get(key);'',
     ''    if (cached && (Date.now() - cached.timestamp) < CACHE_TTL) {'',
     ''        const ageSeconds = Math.round((Date.now() - cached.timestamp) / 1000);'',
     ''        console.log(`[Cache] Hit for ${key} (${ageSeconds}s old)`);'',
     ''        return cached.data;'',
     ''    }'',
     ''    return null;'',
     ''}'']"

definition old_signature :: string where
  "old_signature = ''function getCachedData<T>(key: string): T | null {''"


subsection \<open>Occurrences, overlaps and patched texts\<close>

text \<open>
  \<open>sublist w s\<close> says that \<open>w\<close> occurs in \<open>s\<close>. \<open>suffix_prefix w x\<close> says that a
  non-empty end of \<open>w\<close> is a beginning of \<open>x\<close>, so that an occurrence of \<open>x\<close> can begin
  inside an occurrence of \<open>w\<close>; two words are \<open>apart\<close> when occurrences of them can
  never share a position. \<open>patched ps s t\<close> says that \<open>t\<close> is \<open>s\<close> with some disjoint
  occurrences of old words replaced by their new words from \<open>ps\<close>, and every other
  character kept.
\<close>

fun suffix_prefix :: "string \<Rightarrow> string \<Rightarrow> bool" where
  "suffix_prefix [] x = False"
| "suffix_prefix (c # w) x = (prefix (c # w) x \<or> suffix_prefix w x)"

definition apart :: "string \<Rightarrow> string \<Rightarrow> bool" where
  "apart w x = (\<not> suffix_prefix w x \<and> \<not> suffix_prefix x w \<and> \<not> sublist w x \<and> \<not> sublist x w)"

inductive patched :: "(string \<times> string) set \<Rightarrow> string \<Rightarrow> string \<Rightarrow> bool"
  for ps :: "(string \<times> string) set" where
  patched_Nil: "patched ps [] []"
| patched_keep: "patched ps s t \<Longrightarrow> patched ps (c # s) (c # t)"
| patched_span: "(old, new) \<in> ps \<Longrightarrow> patched ps s t \<Longrightarrow> patched ps (old @ s) (new @ t)"


text \<open>Two concrete files: the smallest file that holds the three old texts, and its patch.\<close>

definition minimal_file :: string where
  "minimal_file = old_text @ newline # candles_old @ newline # quote_old"

definition patched_file :: string where
  "patched_file = new_func @ newline # candles_new @ newline # quote_new"

text \<open>The text after the three steps, as scans.\<close>

definition three_steps :: "string \<Rightarrow> string" where
  "three_steps s = replace_scan quote_old quote_new
     (replace_scan candles_old candles_new (replace_scan old_text new_func s))"

text \<open>
  \<open>printed ls w\<close> is the world after the lines \<open>ls\<close> went to the console; \<open>finish\<close> is
  \<open>apply_fixes\<close> from the comparison with the original text on.
\<close>

definition printed :: "line list \<Rightarrow> world \<Rightarrow> world" where
  "printed ls w = w\<lparr>stdout := stdout w @ ls\<rparr>"

definition finish :: "string \<Rightarrow> bool action" where
  "finish content =
     (if three_steps content = content
      then and_then (print No_changes_applied) (\<lambda>_. return False)
      else and_then (print Writing_updated_file) (\<lambda>_.
           and_then (write_file FILE_PATH (three_steps content)) (\<lambda>_.
           and_then (print Successfully_applied) (\<lambda>_.
           and_then (print Next_steps) (\<lambda>_.
           and_then (print Cd_worker) (\<lambda>_.
           and_then (print Npm_run_deploy) (\<lambda>_.
           return True)))))))"

subsection \<open>Worlds and texts for concrete runs\<close>

text \<open>
  \<open>text_world s\<close> is a POSIX host that holds the target file with text \<open>s\<close>, readable
  and writable, with enough space and a console that takes every line;
  \<open>empty_world\<close> has no file; \<open>legacy_world s\<close> has a console without emoji;
  \<open>crlf_file\<close> is \<open>minimal_file\<close> with \<open>CR LF\<close> between the three old texts. \<open>written w\<close> is the body of the target file.
  \<open>bare_calls\<close> are the two call expressions without the declaration around them.
  \<open>new_signature\<close> and \<open>bypass_branch\<close> are parts of \<open>new_func\<close>.
\<close>

definition text_world :: "string \<Rightarrow> world" where
  "text_world s =
     \<lparr>files = [FILE_PATH \<mapsto> \<lparr>body = Text s, readable = True, writable = True\<rparr>],
      free_space = 100000, stdout = [], console = Encodes_all, host = Posix\<rparr>"

definition empty_world :: world where
  "empty_world =
     \<lparr>files = Map.empty, free_space = 100000, stdout = [], console = Encodes_all,
      host = Posix\<rparr>"



definition written :: "world \<Rightarrow> file_body option" where
  "written w = map_option body (files w FILE_PATH)"

definition bare_calls :: string where
  "bare_calls = newline # ''getCachedData<PricePoint[]>(cacheKey)'' @ newline #
     ''getCachedData<{ price: number; change: number; changePercent: number }>(cacheKey)''"

definition new_signature :: string where
  "new_signature =
     ''function getCachedData<T>(key: string, ignoreExpiry: boolean = false): T | null {''"

definition bypass_branch :: string where
  "bypass_branch = join_lines
    [''    if (ignoreExpiry) {'',
     ''        console.log(`[Cache] Hit for ${key} (${ageSeconds}s old) - ignoring expiry`);'',
     ''        return cached.data;'',
     ''    }'']"

subsection \<open>Directory separators\<close>

text \<open>
  Python's \<open>os.sep\<close> is the slash on a POSIX host and the backslash on Windows, where
  the slash separates too. \<open>split\<close> is \<open>str.split\<close> with a separator of one character.
\<close>

fun os_sep :: "platform \<Rightarrow> char" where
  "os_sep Posix = CHR ''/''"
| "os_sep Windows = backslash"

fun split :: "char \<Rightarrow> string \<Rightarrow> string list" where
  "split sep [] = [[]]"
| "split sep (c # s) =
     (if c = sep then [] # split sep s
      else (case split sep s of [] \<Rightarrow> [[c]] | p # ps \<Rightarrow> (c # p) # ps))"

fun is_absolute :: "platform \<Rightarrow> string \<Rightarrow> bool" where
  "is_absolute Posix p = (take 1 p = ''/'')"
| "is_absolute Windows p =
     (take 1 p = ''/'' \<or> take 1 p = [backslash] \<or> take 1 (drop 1 p) = '':'')"

section \<open>Properties of the scans\<close>

text \<open>
  General facts about \<open>replace_scan\<close>: what a scan does where the old text is absent,
  how it changes the length, which occurrences it creates, removes and keeps, and how a
  scan composes with a text that was patched before.
\<close>

lemma suffix_prefix_iff:
  "suffix_prefix w x \<longleftrightarrow> (\<exists>v. v \<noteq> [] \<and> suffix v w \<and> prefix v x)"
proof (induction w)
  case Nil
  then show ?case by simp
next
  case (Cons c w)
  show ?case
  proof
    assume "suffix_prefix (c # w) x"
    then consider "prefix (c # w) x" | "suffix_prefix w x" by auto
    then show "\<exists>v. v \<noteq> [] \<and> suffix v (c # w) \<and> prefix v x"
    proof cases
      case 1
      then show ?thesis by (intro exI[of _ "c # w"]) simp
    next
      case 2
      with Cons.IH obtain v where "v \<noteq> []" "suffix v w" "prefix v x" by blast
      then show ?thesis by (intro exI[of _ v]) (simp add: suffix_Cons)
    qed
  next
    assume "\<exists>v. v \<noteq> [] \<and> suffix v (c # w) \<and> prefix v x"
    then obtain v where v: "v \<noteq> []" "suffix v (c # w)" "prefix v x" by blast
    from v(2) consider "v = c # w" | "suffix v w" by (auto simp: suffix_Cons)
    then show "suffix_prefix (c # w) x"
    proof cases
      case 1
      with v(3) show ?thesis by simp
    next
      case 2
      with v Cons.IH show ?thesis by auto
    qed
  qed
qed

lemma replace_scan_Nil_old [simp]: "replace_scan [] new s = s"
  by (induction s) auto

lemma replace_scan_hit:
  "old \<noteq> [] \<Longrightarrow> replace_scan old new (old @ s) = new @ replace_scan old new s"
  by (cases old) auto

lemma replace_scan_absent: "\<not> sublist old s \<Longrightarrow> replace_scan old new s = s"
proof (induction old new s rule: replace_scan.induct)
  case (1 old new)
  then show ?case by simp
next
  case (2 old new c s)
  from "2.prems" have np: "\<not> prefix old (c # s)" and ns: "\<not> sublist old s"
    by (auto simp: sublist_Cons_right)
  with "2.IH"(2) show ?case by simp
qed

lemma length_replace_scan_ge:
  "length old \<le> length new \<Longrightarrow> length s \<le> length (replace_scan old new s)"
proof (induction old new s rule: replace_scan.induct)
  case (1 old new)
  then show ?case by simp
next
  case (2 old new c s)
  show ?case
  proof (cases "old \<noteq> [] \<and> prefix old (c # s)")
    case True
    with 2 have "length (drop (length old) (c # s)) \<le> length (replace_scan old new (drop (length old) (c # s)))"
      by blast
    moreover from True have "length old \<le> length (c # s)" by (auto dest: prefix_length_le)
    ultimately show ?thesis using True "2.prems" by simp
  next
    case False
    with 2 show ?thesis by auto
  qed
qed

lemma length_replace_scan_gt:
  "length old < length new \<Longrightarrow> old \<noteq> [] \<Longrightarrow> sublist old s \<Longrightarrow>
     length s < length (replace_scan old new s)"
proof (induction old new s rule: replace_scan.induct)
  case (1 old new)
  then show ?case by simp
next
  case (2 old new c s)
  show ?case
  proof (cases "prefix old (c # s)")
    case True
    have "length (drop (length old) (c # s)) \<le> length (replace_scan old new (drop (length old) (c # s)))"
      using "2.prems"(1) by (intro length_replace_scan_ge) simp
    moreover from True have "length old \<le> length (c # s)" by (auto dest: prefix_length_le)
    ultimately show ?thesis using True "2.prems" by simp
  next
    case False
    with "2.prems" have "sublist old s" by (simp add: sublist_Cons_right)
    with False 2 show ?thesis by auto
  qed
qed


lemma prefix_of_scan_back:
  "\<not> suffix_prefix w new \<Longrightarrow> \<not> sublist new w \<Longrightarrow> suffix v w \<Longrightarrow>
     prefix v (replace_scan old new s) \<Longrightarrow> prefix v s"
proof (induction old new s arbitrary: v rule: replace_scan.induct)
  case (1 old new)
  then show ?case by simp
next
  case (2 old new c s)
  note nsp = "2.prems"(1) and nsub = "2.prems"(2) and suf = "2.prems"(3) and pre = "2.prems"(4)
  show ?case
  proof (cases "v = []")
    case True
    then show ?thesis by simp
  next
    case vne: False
    show ?thesis
    proof (cases "old \<noteq> [] \<and> prefix old (c # s)")
      case True
      with pre have "prefix v (new @ replace_scan old new (drop (length old) (c # s)))"
        by simp
      then consider "prefix v new" | "prefix new v"
        by (auto simp: prefix_append)
      then show ?thesis
      proof cases
        case 1
        with vne suf have "suffix_prefix w new"
          unfolding suffix_prefix_iff by blast
        with nsp show ?thesis by simp
      next
        case 2
        then have "sublist new v" by (rule prefix_imp_sublist)
        moreover from suf have "sublist v w" by (rule suffix_imp_sublist)
        ultimately have "sublist new w" by (rule sublist_order.order_trans)
        with nsub show ?thesis by simp
      qed
    next
      case False
      with pre have pre': "prefix v (c # replace_scan old new s)" by auto
      from vne obtain d v' where v: "v = d # v'" by (cases v) auto
      with pre' have dc: "d = c" and p': "prefix v' (replace_scan old new s)" by auto
      from suf v have "suffix v' w" by (auto dest: suffix_ConsD)
      with "2.IH"(2)[OF False nsp nsub _ p'] have "prefix v' s" by simp
      with v dc show ?thesis by simp
    qed
  qed
qed


lemma replace_scan_no_new:
  "apart w new \<Longrightarrow> sublist w (replace_scan old new s) \<Longrightarrow> sublist w s"
proof (induction old new s rule: replace_scan.induct)
  case (1 old new)
  then show ?case by simp
next
  case (2 old new c s)
  from "2.prems"(1) have nsp: "\<not> suffix_prefix w new" and nps: "\<not> suffix_prefix new w"
    and nwn: "\<not> sublist w new" and nnw: "\<not> sublist new w"
    by (auto simp: apart_def)
  show ?case
  proof (cases "old \<noteq> [] \<and> prefix old (c # s)")
    case True
    let ?t = "replace_scan old new (drop (length old) (c # s))"
    from True "2.prems"(2) have "sublist w (new @ ?t)" by simp
    then consider "sublist w new" | "sublist w ?t"
      | w1 w2 where "w = w1 @ w2" "suffix w1 new" "prefix w2 ?t"
      by (auto simp: sublist_append)
    then have "sublist w ?t"
    proof cases
      case 1
      with nwn show ?thesis by simp
    next
      case 2
      then show ?thesis .
    next
      case 3
      show ?thesis
      proof (cases "w1 = []")
        case True
        with 3 show ?thesis by auto
      next
        case False
        from 3(1) have "prefix w1 w" by simp
        with False 3(2) have "suffix_prefix new w"
          unfolding suffix_prefix_iff by blast
        with nps show ?thesis by simp
      qed
    qed
    with "2.IH"(1)[OF True "2.prems"(1)] have "sublist w (drop (length old) (c # s))" by simp
    moreover have "sublist (drop (length old) (c # s)) (c # s)"
      by (rule suffix_imp_sublist) (rule suffix_drop)
    ultimately show ?thesis by (rule sublist_order.order_trans)
  next
    case False
    with "2.prems"(2) have "sublist w (c # replace_scan old new s)" by auto
    then consider "prefix w (c # replace_scan old new s)" | "sublist w (replace_scan old new s)"
      by (auto simp: sublist_Cons_right)
    then show ?thesis
    proof cases
      case 1
      show ?thesis
      proof (cases w)
        case Nil
        then show ?thesis by simp
      next
        case (Cons d w')
        with 1 have dc: "d = c" and p': "prefix w' (replace_scan old new s)" by auto
        from Cons have "suffix w' w" by (simp add: suffix_Cons)
        from prefix_of_scan_back[OF nsp nnw this p'] have "prefix w' s" .
        with Cons dc have "prefix w (c # s)" by simp
        then show ?thesis by (rule prefix_imp_sublist)
      qed
    next
      case 2
      with "2.IH"(2)[OF False "2.prems"(1)] have "sublist w s" by simp
      then show ?thesis by (simp add: sublist_Cons_right)
    qed
  qed
qed

lemma replace_scan_removes:
  "old \<noteq> [] \<Longrightarrow> apart old new \<Longrightarrow> \<not> sublist old (replace_scan old new s)"
proof (induction old new s rule: replace_scan.induct)
  case (1 old new)
  then show ?case by simp
next
  case (2 old new c s)
  from "2.prems"(2) have nsp: "\<not> suffix_prefix old new" and nps: "\<not> suffix_prefix new old"
    and nwn: "\<not> sublist old new" and nnw: "\<not> sublist new old"
    by (auto simp: apart_def)
  show ?case
  proof (cases "old \<noteq> [] \<and> prefix old (c # s)")
    case True
    let ?t = "replace_scan old new (drop (length old) (c # s))"
    from "2.IH"(1)[OF True "2.prems"] have nt: "\<not> sublist old ?t" .
    have "\<not> sublist old (new @ ?t)"
    proof
      assume "sublist old (new @ ?t)"
      then consider "sublist old new" | "sublist old ?t"
        | w1 w2 where "old = w1 @ w2" "suffix w1 new" "prefix w2 ?t"
        by (auto simp: sublist_append)
      then show False
      proof cases
        case 1
        with nwn show ?thesis by simp
      next
        case 2
        with nt show ?thesis by simp
      next
        case 3
        show ?thesis
        proof (cases "w1 = []")
          case True
          with 3 nt show ?thesis by auto
        next
          case False
          from 3(1) have "prefix w1 old" by simp
          with False 3(2) have "suffix_prefix new old"
            unfolding suffix_prefix_iff by blast
          with nps show ?thesis by simp
        qed
      qed
    qed
    with True show ?thesis by simp
  next
    case False
    from "2.IH"(2)[OF False "2.prems"] have nt: "\<not> sublist old (replace_scan old new s)" .
    have "\<not> prefix old (c # replace_scan old new s)"
    proof
      assume p: "prefix old (c # replace_scan old new s)"
      from "2.prems"(1) obtain d w' where old: "old = d # w'" by (cases old) auto
      with p have dc: "d = c" and p': "prefix w' (replace_scan old new s)" by auto
      from old have "suffix w' old" by (simp add: suffix_Cons)
      from prefix_of_scan_back[OF nsp nnw this p'] have "prefix w' s" .
      with old dc have "prefix old (c # s)" by simp
      with False "2.prems"(1) show False by simp
    qed
    with nt False show ?thesis by (auto simp: sublist_Cons_right)
  qed
qed


text \<open>A pattern none of whose proper suffixes is a prefix of it cannot overlap itself.\<close>

lemma replace_scan_occurrence:
  "old \<noteq> [] \<Longrightarrow> \<not> suffix_prefix (tl old) old \<Longrightarrow>
     replace_scan old new (u @ old @ v) = replace_scan old new u @ new @ replace_scan old new v"
proof (induction old new u rule: replace_scan.induct)
  case (1 old new)
  then show ?case by (simp add: replace_scan_hit)
next
  case (2 old new c u)
  show ?case
  proof (cases "prefix old (c # u)")
    case True
    let ?d = "drop (length old) (c # u)"
    from True have cu: "c # u = old @ ?d"
      by (metis append_take_drop_id prefix_def append_eq_conv_conj)
    have "replace_scan old new ((c # u) @ old @ v) = replace_scan old new (old @ (?d @ old @ v))"
      using cu by (metis append.assoc)
    also have "\<dots> = new @ replace_scan old new (?d @ old @ v)"
      using "2.prems"(1) by (rule replace_scan_hit)
    also have "\<dots> = new @ replace_scan old new ?d @ new @ replace_scan old new v"
      using "2.IH"(1)[OF _ "2.prems"] True "2.prems"(1) by simp
    finally have "replace_scan old new ((c # u) @ old @ v) =
        new @ replace_scan old new ?d @ new @ replace_scan old new v" .
    moreover have "replace_scan old new (c # u) = new @ replace_scan old new ?d"
      using True "2.prems"(1) by simp
    ultimately show ?thesis by simp
  next
    case False
    have np: "\<not> prefix old ((c # u) @ old @ v)"
    proof
      assume p: "prefix old ((c # u) @ old @ v)"
      then have "prefix old (c # u) \<or> prefix (c # u) old"
        by (metis prefix_same_cases prefixI)
      with False have "prefix (c # u) old" by blast
      then obtain r where r: "old = (c # u) @ r" by (auto simp: prefix_def)
      with False have rne: "r \<noteq> []" by auto
      from p r have "prefix r (old @ v)" by simp
      moreover from r have "length r < length old" by simp
      ultimately have pr: "prefix r old"
        by (metis prefix_append prefix_length_le not_less prefix_order.order_refl prefix_def)
      from r have "suffix r (tl old)" by (auto simp: suffix_def)
      with rne pr have "suffix_prefix (tl old) old"
        unfolding suffix_prefix_iff by blast
      with "2.prems"(2) show False by simp
    qed
    from False have "\<not> (old \<noteq> [] \<and> prefix old (c # u))" by simp
    from "2.IH"(2)[OF this "2.prems"] np False show ?thesis by simp
  qed
qed


lemma patched_refl: "patched ps s s"
  by (induction s) (auto intro: patched.intros)

lemma match_here_literal: "match_here dotall (map Literal p) s = prefix p s"
  by (induction p arbitrary: s) (case_tac s; simp)+

lemma sub_scan_literal: "sub_scan dotall (map Literal p) repl s = replace_scan p repl s"
  by (induction p repl s rule: replace_scan.induct) (auto simp: match_here_literal)





subsection \<open>The texts of the script\<close>

text \<open>
  The facts below are decided by evaluation on the constants. \<open>scan_eval\<close> holds the
  rules that compare a word with a text one position at a time.
\<close>

lemma prefix_same: "prefix (c # w) (c # x) = prefix w x"
  by simp

lemma prefix_diff: "c \<noteq> d \<Longrightarrow> prefix (c # w) (d # x) = False"
  by simp

lemmas scan_eval = prefix_same prefix_diff sublist_Cons_right apart_def newline_def

lemma sre_parse_old_func: "sre_parse old_func = Some (map Literal old_text)"
  by (simp add: old_func_def old_text_def raw_def backslash_def newline_def is_alnum_def
      is_special_def)

lemma new_func_no_backslash: "backslash \<notin> set new_func"
  by (simp add: new_func_def backslash_def newline_def)

lemma lengths:
  "length old_text = 350" "length new_func = 643" "length candles_old = 57"
  "length candles_new = 63" "length quote_old = 101" "length quote_new = 107"
  by (simp_all add: old_text_def new_func_def candles_old_def candles_new_def quote_old_def
      quote_new_def newline_def)

lemma apart_old_new: "apart old_text new_func"
  by (simp add: scan_eval old_text_def new_func_def del: Cons_prefix_Cons)

lemma apart_old_candles_new: "apart old_text candles_new"
  by (simp add: scan_eval old_text_def candles_new_def del: Cons_prefix_Cons)

lemma apart_old_quote_new: "apart old_text quote_new"
  by (simp add: scan_eval old_text_def quote_new_def del: Cons_prefix_Cons)

lemma apart_candles_old_new: "apart candles_old candles_new"
  by (simp add: scan_eval candles_old_def candles_new_def del: Cons_prefix_Cons)

lemma apart_candles_old_quote_new: "apart candles_old quote_new"
  by (simp add: scan_eval candles_old_def quote_new_def del: Cons_prefix_Cons)

lemma apart_quote_old_new: "apart quote_old quote_new"
  by (simp add: scan_eval quote_old_def quote_new_def del: Cons_prefix_Cons)



lemma apart_candles_old_old: "apart candles_old old_text"
  by (simp add: scan_eval old_text_def candles_old_def del: Cons_prefix_Cons)


lemma apart_candles_new_quote_old: "apart candles_new quote_old"
  by (simp add: scan_eval candles_new_def quote_old_def del: Cons_prefix_Cons)


lemma no_self_overlap:
  "\<not> suffix_prefix (tl old_text) old_text"
  "\<not> suffix_prefix (tl candles_old) candles_old"
  "\<not> suffix_prefix (tl quote_old) quote_old"
  by (simp_all add: scan_eval old_text_def candles_old_def quote_old_def del: Cons_prefix_Cons)

subsection \<open>The transformation as three scans\<close>

lemma nonempty [simp]:
  "old_text \<noteq> []" "new_func \<noteq> []" "candles_old \<noteq> []" "candles_new \<noteq> []"
  "quote_old \<noteq> []" "quote_new \<noteq> []"
  using lengths by auto

lemma re_sub_old_func:
  "re_sub old_func new_func s dotall = Some (replace_scan old_text new_func s)"
  by (simp add: re_sub_def sre_parse_old_func new_func_no_backslash sub_scan_literal)

lemma str_replace_scan: "old \<noteq> [] \<Longrightarrow> str_replace s old new = replace_scan old new s"
  by (simp add: str_replace_def)

lemma transform_scan:
  "transform s = Some (replace_scan quote_old quote_new
     (replace_scan candles_old candles_new (replace_scan old_text new_func s)))"
  by (simp add: transform_def re_sub_old_func str_replace_scan)


lemma replace_scan_changes:
  assumes "old \<noteq> []" "length old < length new"
  shows "replace_scan old new s \<noteq> s \<longleftrightarrow> sublist old s"
proof
  assume "replace_scan old new s \<noteq> s"
  then show "sublist old s" using replace_scan_absent by blast
next
  assume "sublist old s"
  with assms have "length s < length (replace_scan old new s)"
    by (intro length_replace_scan_gt)
  then show "replace_scan old new s \<noteq> s" by auto
qed

lemma signature_prefix: "prefix old_signature old_text"
  by (simp add: old_signature_def old_text_def newline_def)


lemma transform_candles_old: "transform candles_old = Some candles_new"
proof -
  have "\<not> sublist old_text candles_old"
    using apart_candles_old_old by (simp add: apart_def)
  then have 1: "replace_scan old_text new_func candles_old = candles_old"
    by (rule replace_scan_absent)
  have 2: "replace_scan candles_old candles_new candles_old = candles_new"
    using replace_scan_hit[of candles_old candles_new "[]"] by simp
  have "\<not> sublist quote_old candles_new"
    using apart_candles_new_quote_old by (simp add: apart_def)
  then have 3: "replace_scan quote_old quote_new candles_new = candles_new"
    by (rule replace_scan_absent)
  show ?thesis by (simp add: transform_scan 1 2 3)
qed

lemma minimal_file_absent:
  "\<not> sublist old_text (newline # candles_old @ newline # quote_old)"
  "\<not> sublist candles_old (new_func @ [newline])"
  "\<not> sublist candles_old (newline # quote_old)"
  "\<not> sublist quote_old (new_func @ newline # candles_new @ [newline])"
  by (simp_all add: scan_eval old_text_def new_func_def candles_old_def candles_new_def
      quote_old_def del: Cons_prefix_Cons)

lemma transform_minimal_file: "transform minimal_file = Some patched_file"
proof -
  have 1: "replace_scan old_text new_func minimal_file =
      new_func @ newline # candles_old @ newline # quote_old"
    unfolding minimal_file_def
    by (simp only: replace_scan_hit[OF nonempty(1)]
        replace_scan_absent[OF minimal_file_absent(1)])
  have "replace_scan candles_old candles_new
      ((new_func @ [newline]) @ candles_old @ (newline # quote_old)) =
      (new_func @ [newline]) @ candles_new @ (newline # quote_old)"
    by (simp only: replace_scan_occurrence[OF nonempty(3) no_self_overlap(2)]
        replace_scan_absent[OF minimal_file_absent(2)]
        replace_scan_absent[OF minimal_file_absent(3)])
  then have 2: "replace_scan candles_old candles_new
      (new_func @ newline # candles_old @ newline # quote_old) =
      new_func @ newline # candles_new @ newline # quote_old"
    by simp
  have "replace_scan quote_old quote_new
      ((new_func @ newline # candles_new @ [newline]) @ quote_old @ []) =
      (new_func @ newline # candles_new @ [newline]) @ quote_new @ replace_scan quote_old quote_new []"
    by (simp only: replace_scan_occurrence[OF nonempty(5) no_self_overlap(3)]
        replace_scan_absent[OF minimal_file_absent(4)])
  then have 3: "replace_scan quote_old quote_new
      (new_func @ newline # candles_new @ newline # quote_old) = patched_file"
    by (simp add: patched_file_def)
  show ?thesis by (simp add: transform_scan 1 2 3)
qed


lemma transform_fixed_point:
  assumes "transform s = Some t"
  shows "transform t = Some t \<and> \<not> sublist old_text t \<and> \<not> sublist candles_old t
           \<and> \<not> sublist quote_old t"
proof -
  define s1 where "s1 = replace_scan old_text new_func s"
  define s2 where "s2 = replace_scan candles_old candles_new s1"
  from assms have t: "t = replace_scan quote_old quote_new s2"
    by (simp add: transform_scan s1_def s2_def)
  have "\<not> sublist old_text s1"
    unfolding s1_def by (intro replace_scan_removes apart_old_new) simp
  then have "\<not> sublist old_text s2"
    unfolding s2_def using replace_scan_no_new[OF apart_old_candles_new] by blast
  then have 1: "\<not> sublist old_text t"
    unfolding t using replace_scan_no_new[OF apart_old_quote_new] by blast
  have "\<not> sublist candles_old s2"
    unfolding s2_def by (intro replace_scan_removes apart_candles_old_new) simp
  then have 2: "\<not> sublist candles_old t"
    unfolding t using replace_scan_no_new[OF apart_candles_old_quote_new] by blast
  have 3: "\<not> sublist quote_old t"
    unfolding t by (intro replace_scan_removes apart_quote_old_new) simp
  from 1 2 3 have "transform t = Some t"
    by (simp add: transform_scan replace_scan_absent)
  with 1 2 3 show ?thesis by simp
qed

section \<open>Properties of the run\<close>

text \<open>
  What \<open>apply_fixes\<close> and \<open>main\<close> return and do to the files, by the console and by
  the three cases of a run: the read raises, the text does not change, the text
  changes and is written.
\<close>

lemma transform_three_steps: "transform s = Some (three_steps s)"
  by (simp add: transform_scan three_steps_def)

lemma printed_fields [simp]:
  "files (printed ls w) = files w" "free_space (printed ls w) = free_space w"
  "console (printed ls w) = console w" "host (printed ls w) = host w"
  "stdout (printed ls w) = stdout w @ ls"
  by (simp_all add: printed_def)

lemma printed_printed [simp]: "printed ls (printed ms w) = printed (ms @ ls) w"
  by (simp add: printed_def)

lemma print_ok: "console_error (console w) l = None \<Longrightarrow> print l w = (Inr (), printed [l] w)"
  by (simp add: print_def printed_def)

lemma print_fail: "console_error (console w) l = Some e \<Longrightarrow> print l w = (Inl e, w)"
  by (simp add: print_def)

lemma print_fields:
  "files (snd (print l w)) = files w" "free_space (snd (print l w)) = free_space w"
  "console (snd (print l w)) = console w" "host (snd (print l w)) = host w"
  by (simp_all add: print_def split: option.splits)

lemma print_Exception: "fst (print l w) = Inl e \<Longrightarrow> is_Exception e"
  by (cases "console w") (auto simp: print_def split: option.splits if_splits)

lemma read_text_printed [simp]: "read_text (printed ls w) p = read_text w p"
  by (simp add: read_text_def printed_def)

lemma write_text_printed [simp]:
  "write_text (printed ls w) p s = apsnd (printed ls) (write_text w p s)"
  by (simp add: write_text_def printed_def Let_def)

lemma write_text_fields [simp]:
  "free_space (snd (write_text w p s)) = free_space w"
  "console (snd (write_text w p s)) = console w"
  "host (snd (write_text w p s)) = host w"
  "stdout (snd (write_text w p s)) = stdout w"
  by (simp_all add: write_text_def Let_def)

lemma write_text_other: "q \<noteq> p \<Longrightarrow> files (snd (write_text w p s)) q = files w q"
  by (simp add: write_text_def Let_def)

lemma write_text_Exception: "fst (write_text w p s) = Some e \<Longrightarrow> is_Exception e"
  by (auto simp: write_text_def Let_def split: if_splits)

lemma read_text_Exception: "read_text w p = Inl e \<Longrightarrow> is_Exception e"
  by (auto simp: read_text_def split: option.splits if_splits file_body.splits)

lemma apply_fixes_broken: "console w = Broken \<Longrightarrow> apply_fixes w = (Inl OSError, w)"
  by (simp add: apply_fixes_def and_then_def print_def)

lemma apply_fixes_read_error:
  "console w \<noteq> Broken \<Longrightarrow> read_text w FILE_PATH = Inl e \<Longrightarrow>
     apply_fixes w = (Inl e, printed [Reading_file] w)"
  by (cases "console w")
     (simp_all add: apply_fixes_def and_then_def print_ok read_file_def)

lemma apply_fixes_finish:
  "console w \<noteq> Broken \<Longrightarrow> read_text w FILE_PATH = Inr content \<Longrightarrow>
     apply_fixes w =
       finish content (printed [Reading_file, Applying_Fix_1, Applying_Fix_2, Applying_Fix_3_4] w)"
  by (cases "console w")
     (simp_all add: apply_fixes_def and_then_def print_ok read_file_def substituted_def
        re_sub_old_func str_replace_scan three_steps_def[symmetric] finish_def Let_def)

lemma finish_same:
  "three_steps content = content \<Longrightarrow>
     finish content w =
       (case console_error (console w) No_changes_applied of
          None \<Rightarrow> (Inr False, printed [No_changes_applied] w)
        | Some e \<Rightarrow> (Inl e, w))"
  by (simp add: finish_def and_then_def print_def printed_def return_def split: option.splits)

lemma finish_change:
  assumes "three_steps content \<noteq> content" "console w \<noteq> Broken"
  shows "finish content w =
       (case write_text w FILE_PATH (three_steps content) of
          (Some e, w') \<Rightarrow> (Inl e, printed [Writing_updated_file] w')
        | (None, w') \<Rightarrow>
            if console w = Encodes_all
            then (Inr True, printed [Writing_updated_file, Successfully_applied, Next_steps,
                    Cd_worker, Npm_run_deploy] w')
            else (Inl UnicodeEncodeError, printed [Writing_updated_file] w'))"
proof (cases "write_text w FILE_PATH (three_steps content)")
  case (Pair r w')
  then have c: "console w' = console w"
    using write_text_fields(2)[of w FILE_PATH "three_steps content"] by simp
  from assms(2) consider "console w = Encodes_all" | "console w = Ascii_only"
    by (cases "console w") auto
  then show ?thesis
  proof cases
    case 1
    with assms(1) Pair c show ?thesis
      by (cases r)
         (simp_all add: finish_def and_then_def print_ok print_fail write_file_def return_def)
  next
    case 2
    with assms(1) Pair c show ?thesis
      by (cases r)
         (simp_all add: finish_def and_then_def print_ok print_fail write_file_def return_def)
  qed
qed

lemma fst_apply_fixes:
  "fst (apply_fixes w) =
     (if console w = Broken then Inl OSError
      else case read_text w FILE_PATH of
        Inl e \<Rightarrow> Inl e
      | Inr content \<Rightarrow>
          if three_steps content = content
          then (if console w = Encodes_all then Inr False else Inl UnicodeEncodeError)
          else (case fst (write_text w FILE_PATH (three_steps content)) of
                  Some e \<Rightarrow> Inl e
                | None \<Rightarrow> if console w = Encodes_all then Inr True else Inl UnicodeEncodeError))"
proof (cases "console w = Broken")
  case True
  then show ?thesis by (simp add: apply_fixes_broken)
next
  case nb: False
  show ?thesis
  proof (cases "read_text w FILE_PATH")
    case (Inl e)
    with nb show ?thesis by (simp add: apply_fixes_read_error)
  next
    case (Inr content)
    show ?thesis
    proof (cases "three_steps content = content")
      case True
      with nb Inr show ?thesis
        by (cases "console w") (simp_all add: apply_fixes_finish finish_same)
    next
      case False
      with nb Inr show ?thesis
        by (cases "write_text w FILE_PATH (three_steps content)")
           (simp add: apply_fixes_finish finish_change split: option.splits)
    qed
  qed
qed

lemma snd_apply_fixes:
  "files (snd (apply_fixes w)) =
     (if console w = Broken then files w
      else case read_text w FILE_PATH of
        Inl e \<Rightarrow> files w
      | Inr content \<Rightarrow>
          if three_steps content = content then files w
          else files (snd (write_text w FILE_PATH (three_steps content))))"
  "console (snd (apply_fixes w)) = console w"
  "free_space (snd (apply_fixes w)) = free_space w"
  "host (snd (apply_fixes w)) = host w"
proof -
  have "files (snd (apply_fixes w)) =
     (if console w = Broken then files w
      else case read_text w FILE_PATH of
        Inl e \<Rightarrow> files w
      | Inr content \<Rightarrow>
          if three_steps content = content then files w
          else files (snd (write_text w FILE_PATH (three_steps content))))
    \<and> console (snd (apply_fixes w)) = console w
    \<and> free_space (snd (apply_fixes w)) = free_space w
    \<and> host (snd (apply_fixes w)) = host w"
  proof (cases "console w = Broken")
    case True
    then show ?thesis by (simp add: apply_fixes_broken)
  next
    case nb: False
    show ?thesis
    proof (cases "read_text w FILE_PATH")
      case (Inl e)
      with nb show ?thesis by (simp add: apply_fixes_read_error)
    next
      case (Inr content)
      show ?thesis
      proof (cases "three_steps content = content")
        case True
        with nb Inr show ?thesis
          by (cases "console w") (simp_all add: apply_fixes_finish finish_same)
      next
        case False
        obtain r w' where p: "write_text w FILE_PATH (three_steps content) = (r, w')"
          by (cases "write_text w FILE_PATH (three_steps content)")
        then have "console w' = console w" "free_space w' = free_space w" "host w' = host w"
          using write_text_fields[of w FILE_PATH "three_steps content"] by simp_all
        with False nb Inr p show ?thesis
          by (simp add: apply_fixes_finish finish_change split: option.splits)
      qed
    qed
  qed
  then show "files (snd (apply_fixes w)) =
     (if console w = Broken then files w
      else case read_text w FILE_PATH of
        Inl e \<Rightarrow> files w
      | Inr content \<Rightarrow>
          if three_steps content = content then files w
          else files (snd (write_text w FILE_PATH (three_steps content))))"
    "console (snd (apply_fixes w)) = console w"
    "free_space (snd (apply_fixes w)) = free_space w"
    "host (snd (apply_fixes w)) = host w"
    by simp_all
qed

lemma apply_fixes_Exception: "fst (apply_fixes w) = Inl e \<Longrightarrow> is_Exception e"
  by (auto simp: fst_apply_fixes split: if_splits sum.splits option.splits
      dest: read_text_Exception write_text_Exception)

lemma fst_main:
  "fst (main w) =
     (case fst (apply_fixes w) of
        Inr success \<Rightarrow> Exit (if success then 0 else 1)
      | Inl e \<Rightarrow>
          (case console_error (console w) (Error e) of
             None \<Rightarrow> Exit 1
           | Some e' \<Rightarrow> Traceback e'))"
proof (cases "apply_fixes w")
  case (Pair r w')
  then have c: "console w' = console w" using snd_apply_fixes(2)[of w] by simp
  show ?thesis
  proof (cases r)
    case (Inl e)
    with Pair have ex: "is_Exception e" using apply_fixes_Exception[of w e] by simp
    show ?thesis
    proof (cases "console_error (console w) (Error e)")
      case None
      with Pair Inl ex c show ?thesis
        by (simp add: main_def try_except_def try_body_def print_ok)
    next
      case (Some e')
      then have "e' = UnicodeEncodeError \<or> e' = OSError"
        by (cases "console w") (auto split: if_splits)
      with Some Pair Inl ex c show ?thesis
        by (auto simp: main_def try_except_def try_body_def print_fail)
    qed
  next
    case (Inr success)
    with Pair show ?thesis by (simp add: main_def try_except_def try_body_def)
  qed
qed

lemma snd_main:
  "files (snd (main w)) = files (snd (apply_fixes w))"
  "free_space (snd (main w)) = free_space (snd (apply_fixes w))"
  "console (snd (main w)) = console (snd (apply_fixes w))"
  "host (snd (main w)) = host (snd (apply_fixes w))"
proof -
  obtain r w' where a: "apply_fixes w = (r, w')" by (cases "apply_fixes w")
  obtain e w'' where b: "try_except w = (e, w'')" by (cases "try_except w")
  from a b have "files w'' = files w' \<and> free_space w'' = free_space w'
      \<and> console w'' = console w' \<and> host w'' = host w'"
    using print_fields[of "Error (fst (try_body w))" w']
    by (auto simp: try_except_def try_body_def split: sum.splits if_splits prod.splits)
  moreover from b have "snd (main w) = w''"
    by (simp add: main_def split: exn.splits)
  ultimately show "files (snd (main w)) = files (snd (apply_fixes w))"
    "free_space (snd (main w)) = free_space (snd (apply_fixes w))"
    "console (snd (main w)) = console (snd (apply_fixes w))"
    "host (snd (main w)) = host (snd (apply_fixes w))"
    using a by simp_all
qed

lemma universal_newlines_Cons:
  "carriage_return \<noteq> c \<Longrightarrow> universal_newlines (c # s) = c # universal_newlines s"
  by (cases s) auto

lemma universal_newlines_append:
  "carriage_return \<notin> set u \<Longrightarrow> universal_newlines (u @ s) = u @ universal_newlines s"
  by (induction u) (simp_all add: universal_newlines_Cons)

lemma universal_newlines_id: "carriage_return \<notin> set s \<Longrightarrow> universal_newlines s = s"
  using universal_newlines_append[of s "[]"] by simp

lemma universal_newlines_crlf:
  "universal_newlines (carriage_return # newline # s) = newline # universal_newlines s"
  by simp

lemma newline_not_cr [simp]: "newline \<noteq> carriage_return" "carriage_return \<noteq> newline"
  by (simp_all add: newline_def carriage_return_def)

lemma universal_newlines_no_cr: "carriage_return \<notin> set (universal_newlines s)"
  by (induction s rule: universal_newlines.induct) auto

lemma read_text_no_cr: "read_text w p = Inr content \<Longrightarrow> carriage_return \<notin> set content"
  by (auto simp: read_text_def universal_newlines_no_cr
      split: option.splits if_splits file_body.splits)

lemma write_then_read:
  "carriage_return \<notin> set t \<Longrightarrow> universal_newlines (write_newlines pl t) = t"
proof (cases pl)
  case Posix
  assume "carriage_return \<notin> set t"
  with Posix show ?thesis by (simp add: universal_newlines_id)
next
  case Windows
  assume "carriage_return \<notin> set t"
  then have "universal_newlines
      (concat (map (\<lambda>c. if c = newline then [carriage_return, newline] else [c]) t)) = t"
    by (induction t) (auto simp: universal_newlines_Cons)
  with Windows show ?thesis by simp
qed

lemma replace_scan_set:
  "c \<notin> set new \<Longrightarrow> c \<notin> set s \<Longrightarrow> c \<notin> set (replace_scan old new s)"
proof (induction old new s rule: replace_scan.induct)
  case (1 old new)
  then show ?case by simp
next
  case (2 old new d s)
  show ?case
  proof (cases "old \<noteq> [] \<and> prefix old (d # s)")
    case True
    from "2.prems"(2) have "c \<notin> set (drop (length old) (d # s))"
      by (meson in_set_dropD)
    with "2.IH"(1)[OF True "2.prems"(1)] True "2.prems"(1) show ?thesis by simp
  next
    case False
    with "2.IH"(2)[OF False "2.prems"(1)] "2.prems"(2) show ?thesis by auto
  qed
qed

lemma no_cr:
  "carriage_return \<notin> set old_text" "carriage_return \<notin> set new_func"
  "carriage_return \<notin> set candles_old" "carriage_return \<notin> set candles_new"
  "carriage_return \<notin> set quote_old" "carriage_return \<notin> set quote_new"
  "carriage_return \<notin> set bare_calls"
  by (simp_all add: old_text_def new_func_def candles_old_def candles_new_def quote_old_def
      quote_new_def bare_calls_def newline_def carriage_return_def)

lemma three_steps_no_cr: "carriage_return \<notin> set s \<Longrightarrow> carriage_return \<notin> set (three_steps s)"
  unfolding three_steps_def by (intro replace_scan_set no_cr)


lemma main_other_paths: "p \<noteq> FILE_PATH \<Longrightarrow> files (snd (main w)) p = files w p"
  by (simp add: snd_main snd_apply_fixes write_text_other split: sum.splits)

lemma main_exit_0:
  "fst (main w) = Exit 0 \<longleftrightarrow>
     console w = Encodes_all \<and>
     (\<exists>content. read_text w FILE_PATH = Inr content \<and> three_steps content \<noteq> content
        \<and> fst (write_text w FILE_PATH (three_steps content)) = None)"
  by (cases "console w")
     (auto simp: fst_main fst_apply_fixes split: sum.splits option.splits if_splits)

lemma main_no_change:
  assumes "console w = Encodes_all" "read_text w FILE_PATH = Inr content"
    "three_steps content = content"
  shows "main w = (Exit 1, printed [Reading_file, Applying_Fix_1, Applying_Fix_2,
           Applying_Fix_3_4, No_changes_applied] w)"
  using assms
  by (simp add: main_def try_except_def try_body_def apply_fixes_finish finish_same)

lemma written_after_write:
  assumes "read_text w FILE_PATH = Inr content" "fst (write_text w FILE_PATH t) = None"
  shows "\<exists>f. files w FILE_PATH = Some f \<and> readable f
     \<and> files (snd (write_text w FILE_PATH t)) FILE_PATH
         = Some (f\<lparr>body := Text (write_newlines (host w) t)\<rparr>)"
  using assms
  by (auto simp: read_text_def write_text_def Let_def split: option.splits if_splits)

lemma second_run_exit:
  assumes "fst (main w) = Exit 0"
  shows "fst (main (snd (main w))) = Exit 1
     \<and> files (snd (main (snd (main w)))) = files (snd (main w))
     \<and> last (stdout (snd (main (snd (main w))))) = No_changes_applied"
proof -
  from assms obtain content where c: "console w = Encodes_all"
    and r: "read_text w FILE_PATH = Inr content"
    and ne: "three_steps content \<noteq> content"
    and wr: "fst (write_text w FILE_PATH (three_steps content)) = None"
    unfolding main_exit_0 by blast
  let ?t = "three_steps content"
  let ?w = "snd (main w)"
  from c r ne have f: "files ?w = files (snd (write_text w FILE_PATH ?t))"
    by (simp add: snd_main snd_apply_fixes)
  have c2: "console ?w = Encodes_all" using c by (simp add: snd_main snd_apply_fixes)
  from written_after_write[OF r wr] obtain fl where fl: "readable fl"
    "files (snd (write_text w FILE_PATH ?t)) FILE_PATH
       = Some (fl\<lparr>body := Text (write_newlines (host w) ?t)\<rparr>)"
    by blast
  have "carriage_return \<notin> set ?t"
    using read_text_no_cr[OF r] by (rule three_steps_no_cr)
  then have "universal_newlines (write_newlines (host w) ?t) = ?t" by (rule write_then_read)
  with f fl have r2: "read_text ?w FILE_PATH = Inr ?t"
    by (simp add: read_text_def)
  have fx: "three_steps ?t = ?t"
    using transform_fixed_point[OF transform_three_steps[of content]]
    by (simp add: transform_three_steps)
  from main_no_change[OF c2 r2 fx] show ?thesis by simp
qed

lemma main_empty_world:
  "read_text empty_world FILE_PATH = Inl FileNotFoundError"
  "fst (apply_fixes empty_world) = Inl FileNotFoundError"
  by (simp_all add: fst_apply_fixes) (simp_all add: empty_world_def read_text_def)

lemma three_steps_candles_new: "three_steps candles_new = candles_new"
  using transform_fixed_point[OF transform_candles_old] by (simp add: transform_three_steps)

lemma read_text_world: "read_text (text_world s) FILE_PATH = Inr (universal_newlines s)"
  by (simp add: text_world_def read_text_def)

lemma main_text_world:
  assumes "three_steps (universal_newlines s) \<noteq> universal_newlines s"
    "length (three_steps (universal_newlines s)) \<le> 100000"
  shows "fst (main (text_world s)) = Exit 0
     \<and> written (snd (main (text_world s))) = Some (Text (three_steps (universal_newlines s)))"
proof -
  let ?t = "three_steps (universal_newlines s)"
  have w: "fst (write_text (text_world s) FILE_PATH ?t) = None"
    "files (snd (write_text (text_world s) FILE_PATH ?t)) FILE_PATH =
       Some \<lparr>body = Text ?t, readable = True, writable = True\<rparr>"
    using assms(2) by (simp_all add: text_world_def write_text_def)
  have c: "console (text_world s) = Encodes_all" by (simp add: text_world_def)
  from assms(1) w c show ?thesis
    by (simp add: fst_main fst_apply_fixes snd_main snd_apply_fixes read_text_world
        written_def)
qed

lemma three_steps_minimal_file: "three_steps minimal_file = patched_file"
  using transform_minimal_file by (simp add: transform_three_steps)

lemma bare_absent:
  "\<not> sublist old_text bare_calls"
  "\<not> sublist candles_old (new_func @ bare_calls)"
  "\<not> sublist quote_old (new_func @ bare_calls)"
  "\<not> sublist ''cacheKey, true'' (new_func @ bare_calls)"
  by (simp_all add: scan_eval old_text_def new_func_def candles_old_def quote_old_def
      bare_calls_def del: Cons_prefix_Cons)

lemma three_steps_bare: "three_steps (old_text @ bare_calls) = new_func @ bare_calls"
  unfolding three_steps_def
  by (simp only: replace_scan_hit[OF nonempty(1)] replace_scan_absent[OF bare_absent(1)]
      replace_scan_absent[OF bare_absent(2)] replace_scan_absent[OF bare_absent(3)])

lemma length_bare_calls: "length bare_calls = 120"
  by (simp add: bare_calls_def)

lemma new_func_parts:
  "prefix new_signature new_func" "sublist bypass_branch new_func"
  "sublist ''getCachedData<PricePoint[]>(cacheKey, true)'' candles_new"
  "sublist ''getCachedData<{ price: number; change: number; changePercent: number }>(cacheKey, true)'' quote_new"
  by (simp_all add: scan_eval new_signature_def bypass_branch_def new_func_def candles_new_def
      quote_new_def del: Cons_prefix_Cons)

lemma patched_file_parts:
  "prefix new_func patched_file" "sublist candles_new patched_file"
  "sublist quote_new patched_file"
proof -
  show "prefix new_func patched_file" by (simp add: patched_file_def)
  have "patched_file = (new_func @ [newline]) @ candles_new @ (newline # quote_new)"
    by (simp add: patched_file_def)
  then show "sublist candles_new patched_file" unfolding sublist_def by blast
  have "patched_file = (new_func @ newline # candles_new @ [newline]) @ quote_new @ []"
    by (simp add: patched_file_def)
  then show "sublist quote_new patched_file" unfolding sublist_def by blast
qed

lemma dot_needs_dotall:
  "re_sub ''a.b'' ''X'' (''a'' @ newline # ''b'') True = Some ''X''"
  "re_sub ''a.b'' ''X'' (''a'' @ newline # ''b'') False = Some (''a'' @ newline # ''b'')"
  by (simp_all add: re_sub_def backslash_def newline_def is_special_def is_alnum_def)

lemma no_cr_files:
  "carriage_return \<notin> set minimal_file" "carriage_return \<notin> set patched_file"
  by (simp_all add: minimal_file_def patched_file_def no_cr)

lemma read_candles_new: "read_text (text_world candles_new) FILE_PATH = Inr candles_new"
  by (simp add: read_text_world universal_newlines_id no_cr)

lemma read_minimal_file: "read_text (text_world minimal_file) FILE_PATH = Inr minimal_file"
  by (simp add: read_text_world universal_newlines_id no_cr_files)


lemma minimal_file_changes: "patched_file \<noteq> minimal_file"
proof -
  have "length patched_file \<noteq> length minimal_file"
    by (simp add: minimal_file_def patched_file_def lengths)
  then show ?thesis by auto
qed

lemma minimal_run:
  "fst (main (text_world minimal_file)) = Exit 0"
  "written (snd (main (text_world minimal_file))) = Some (Text patched_file)"
proof -
  have u: "universal_newlines minimal_file = minimal_file"
    by (simp add: universal_newlines_id no_cr_files)
  have "length patched_file \<le> 100000"
    by (simp add: patched_file_def lengths)
  with minimal_file_changes
  show "fst (main (text_world minimal_file)) = Exit 0"
    "written (snd (main (text_world minimal_file))) = Some (Text patched_file)"
    using main_text_world[of minimal_file] by (simp_all add: three_steps_minimal_file u)
qed






section \<open>The claims\<close>





text \<open>
  Claim C3. The files are as they were when reading raised, when the transformation
  raised, and when no step changed the text; the run changes a file only after the
  file was read and the three steps changed its text.
\<close>
theorem file_untouched:
  "(\<forall>e. read_text w FILE_PATH = Inl e \<longrightarrow> files (snd (main w)) = files w)
   \<and> (\<forall>content. read_text w FILE_PATH = Inr content
          \<and> (transform content = None \<or> transform content = Some content)
        \<longrightarrow> files (snd (main w)) = files w)
   \<and> (files (snd (main w)) \<noteq> files w \<longrightarrow>
        (\<exists>content text. read_text w FILE_PATH = Inr content \<and> transform content = Some text
           \<and> text \<noteq> content))"
  by (cases "console w = Broken")
     (auto simp: snd_main snd_apply_fixes transform_three_steps split: sum.splits)

theorem file_untouched_witness:
  "read_text empty_world FILE_PATH = Inl FileNotFoundError
   \<and> files (snd (main empty_world)) = files empty_world
   \<and> read_text (text_world candles_new) FILE_PATH = Inr candles_new
   \<and> transform candles_new = Some candles_new
   \<and> files (snd (main (text_world candles_new))) = files (text_world candles_new)"
proof -
  have t: "transform candles_new = Some candles_new"
    by (simp add: transform_three_steps three_steps_candles_new)
  have 1: "files (snd (main empty_world)) = files empty_world"
    using file_untouched[of empty_world] main_empty_world(1) by blast
  have 2: "files (snd (main (text_world candles_new))) = files (text_world candles_new)"
    using file_untouched[of "text_world candles_new"] t read_candles_new by blast
  from 1 2 t main_empty_world(1) show ?thesis
    by (simp add: read_text_world universal_newlines_id no_cr)
qed

text \<open>
  Claim C4. A step whose old text does not occur in the current text leaves it as it
  is; the final text differs from the input exactly when one of the three steps found
  its old text and altered the text; and when the old signature is absent, the first
  step does nothing while either call-site replacement still makes the run a change.
\<close>

theorem noop_steps_and_change:
  assumes "re_sub old_func new_func s True = Some s1"
    and "s2 = str_replace s1 candles_old candles_new"
    and "s3 = str_replace s2 quote_old quote_new"
  shows "transform s = Some s3
     \<and> (\<not> sublist old_text s \<longrightarrow> s1 = s)
     \<and> (\<not> sublist candles_old s1 \<longrightarrow> s2 = s1)
     \<and> (\<not> sublist quote_old s2 \<longrightarrow> s3 = s2)
     \<and> (s3 \<noteq> s \<longleftrightarrow>
          (sublist old_text s \<and> s1 \<noteq> s) \<or> (sublist candles_old s1 \<and> s2 \<noteq> s1)
            \<or> (sublist quote_old s2 \<and> s3 \<noteq> s2))
     \<and> (\<not> sublist old_signature s \<longrightarrow>
          s1 = s \<and> (sublist candles_old s \<or> sublist quote_old s \<longrightarrow> s3 \<noteq> s))"
proof -
  from assms(1) have s1: "s1 = replace_scan old_text new_func s"
    by (simp add: re_sub_old_func)
  from assms(2) have s2: "s2 = replace_scan candles_old candles_new s1"
    by (simp add: str_replace_scan)
  from assms(3) have s3: "s3 = replace_scan quote_old quote_new s2"
    by (simp add: str_replace_scan)
  have c1: "s1 \<noteq> s \<longleftrightarrow> sublist old_text s"
    unfolding s1 by (rule replace_scan_changes) (simp_all add: lengths)
  have c2: "s2 \<noteq> s1 \<longleftrightarrow> sublist candles_old s1"
    unfolding s2 by (rule replace_scan_changes) (simp_all add: lengths)
  have c3: "s3 \<noteq> s2 \<longleftrightarrow> sublist quote_old s2"
    unfolding s3 by (rule replace_scan_changes) (simp_all add: lengths)
  have l1: "length s \<le> length s1"
    unfolding s1 by (rule length_replace_scan_ge) (simp add: lengths)
  have l2: "length s1 \<le> length s2"
    unfolding s2 by (rule length_replace_scan_ge) (simp add: lengths)
  have l3: "length s2 \<le> length s3"
    unfolding s3 by (rule length_replace_scan_ge) (simp add: lengths)
  have g1: "sublist old_text s \<Longrightarrow> length s < length s1"
    unfolding s1 by (rule length_replace_scan_gt) (simp_all add: lengths)
  have g2: "sublist candles_old s1 \<Longrightarrow> length s1 < length s2"
    unfolding s2 by (rule length_replace_scan_gt) (simp_all add: lengths)
  have g3: "sublist quote_old s2 \<Longrightarrow> length s2 < length s3"
    unfolding s3 by (rule length_replace_scan_gt) (simp_all add: lengths)
  have t: "transform s = Some s3"
    by (simp add: transform_scan s1 s2 s3)
  have change: "s3 \<noteq> s \<longleftrightarrow>
      (sublist old_text s \<and> s1 \<noteq> s) \<or> (sublist candles_old s1 \<and> s2 \<noteq> s1)
        \<or> (sublist quote_old s2 \<and> s3 \<noteq> s2)"
  proof
    assume "s3 \<noteq> s"
    then have "s1 \<noteq> s \<or> s2 \<noteq> s1 \<or> s3 \<noteq> s2" by auto
    with c1 c2 c3 show "(sublist old_text s \<and> s1 \<noteq> s) \<or> (sublist candles_old s1 \<and> s2 \<noteq> s1)
        \<or> (sublist quote_old s2 \<and> s3 \<noteq> s2)" by blast
  next
    assume "(sublist old_text s \<and> s1 \<noteq> s) \<or> (sublist candles_old s1 \<and> s2 \<noteq> s1)
        \<or> (sublist quote_old s2 \<and> s3 \<noteq> s2)"
    then have "length s < length s3" using g1 g2 g3 l1 l2 l3 by fastforce
    then show "s3 \<noteq> s" by auto
  qed
  have sig: "s1 = s \<and> (sublist candles_old s \<or> sublist quote_old s \<longrightarrow> s3 \<noteq> s)"
    if "\<not> sublist old_signature s"
  proof -
    have "\<not> sublist old_text s"
    proof
      assume "sublist old_text s"
      with prefix_imp_sublist[OF signature_prefix] have "sublist old_signature s"
        by (rule sublist_order.order_trans)
      with that show False by simp
    qed
    with c1 have e: "s1 = s" by simp
    have "s3 \<noteq> s" if "sublist candles_old s \<or> sublist quote_old s"
    proof (cases "sublist candles_old s")
      case True
      with e g2 l3 have "length s < length s3" by fastforce
      then show ?thesis by auto
    next
      case False
      with that have q: "sublist quote_old s" by simp
      from False e c2 have "s2 = s" by simp
      with q g3 have "length s < length s3" by simp
      then show ?thesis by auto
    qed
    with e show ?thesis by simp
  qed
  from t c1 c2 c3 change sig show ?thesis by blast
qed

theorem noop_steps_and_change_witness:
  "re_sub old_func new_func candles_old True = Some candles_old
   \<and> candles_new = str_replace candles_old candles_old candles_new
   \<and> candles_new = str_replace candles_new quote_old quote_new
   \<and> \<not> sublist old_signature candles_old \<and> sublist candles_old candles_old
   \<and> transform candles_old = Some candles_new \<and> candles_new \<noteq> candles_old"
proof -
  have a: "\<not> sublist old_text candles_old" "\<not> sublist quote_old candles_new"
    using apart_candles_old_old apart_candles_new_quote_old by (simp_all add: apart_def)
  have h1: "re_sub old_func new_func candles_old True = Some candles_old"
    by (simp add: re_sub_old_func replace_scan_absent[OF a(1)])
  have h2: "candles_new = str_replace candles_old candles_old candles_new"
    using replace_scan_hit[of candles_old candles_new "[]"] by (simp add: str_replace_scan)
  have h3: "candles_new = str_replace candles_new quote_old quote_new"
    by (simp add: str_replace_scan replace_scan_absent[OF a(2)])
  have sig: "\<not> sublist old_signature candles_old"
    by (simp add: scan_eval old_signature_def candles_old_def del: Cons_prefix_Cons)
  from noop_steps_and_change[OF h1 h2 h3] h1 h2 h3 sig show ?thesis by simp
qed

text \<open>
  Claim C5. The output of the transformation holds none of the three old texts, so a
  second application leaves it as it is: every output is a fixed point. A run that
  follows a successful run exits with 1, reports that nothing changed and leaves the
  files as they are.
\<close>
theorem second_run_fixed_point:
  "(transform s = Some t \<longrightarrow>
      transform t = Some t \<and> \<not> sublist old_text t \<and> \<not> sublist candles_old t
        \<and> \<not> sublist quote_old t)
   \<and> (fst (main w) = Exit 0 \<longrightarrow>
        fst (main (snd (main w))) = Exit 1
        \<and> files (snd (main (snd (main w)))) = files (snd (main w))
        \<and> last (stdout (snd (main (snd (main w))))) = No_changes_applied)"
  using transform_fixed_point[of s t] second_run_exit[of w] by blast

theorem second_run_fixed_point_witness:
  "transform candles_old = Some candles_new \<and> candles_new \<noteq> candles_old
   \<and> transform candles_new = Some candles_new
   \<and> fst (main (text_world minimal_file)) = Exit 0
   \<and> fst (main (snd (main (text_world minimal_file)))) = Exit 1"
proof -
  have "candles_new \<noteq> candles_old" using lengths by auto
  then show ?thesis
    using second_run_fixed_point[of candles_old candles_new "text_world minimal_file"]
      transform_candles_old minimal_run(1)
    by blast
qed




text \<open>
  Claim C7, as stated: on the file that consists of the old function definition and
  the two call expressions \<open>getCachedData<PricePoint[]>(cacheKey)\<close> and
  \<open>getCachedData<{ price: number; change: number; changePercent: number }>(cacheKey)\<close>,
  one run gives both call sites the second argument \<open>true\<close>. It fails: the literal
  replacements look for the declarations \<open>const cachedData = ...;\<close> around the calls,
  so the run replaces the definition, exits with 0 and leaves both calls as they were.
\<close>
theorem bare_calls_counterexample:
  "fst (main (text_world (old_text @ bare_calls))) = Exit 0
   \<and> written (snd (main (text_world (old_text @ bare_calls)))) = Some (Text (new_func @ bare_calls))
   \<and> \<not> sublist ''cacheKey, true'' (new_func @ bare_calls)"
proof -
  have u: "universal_newlines (old_text @ bare_calls) = old_text @ bare_calls"
    by (simp add: universal_newlines_id no_cr)
  have "three_steps (old_text @ bare_calls) \<noteq> old_text @ bare_calls"
    using lengths by (auto simp: three_steps_bare)
  moreover have "length (three_steps (old_text @ bare_calls)) \<le> 100000"
    by (simp add: three_steps_bare lengths length_bare_calls)
  ultimately show ?thesis
    using main_text_world[of "old_text @ bare_calls"] bare_absent(4)
    by (simp add: three_steps_bare u)
qed

text \<open>
  Claim C7, amended: on the file that consists of the old function definition and the
  two statements \<open>const cachedData = getCachedData<PricePoint[]>(cacheKey);\<close> and
  \<open>const cachedData = getCachedData<{ price: number; change: number; changePercent:
  number }>(cacheKey);\<close>, one run exits with 0 and writes a file in which the signature
  of \<open>getCachedData\<close> has the second parameter \<open>ignoreExpiry: boolean = false\<close>, the
  branch on that parameter returns the cached data, and both calls pass \<open>true\<close>.
\<close>
theorem minimal_file_run:
  "fst (main (text_world minimal_file)) = Exit 0
   \<and> written (snd (main (text_world minimal_file))) = Some (Text patched_file)
   \<and> prefix new_signature patched_file
   \<and> sublist bypass_branch patched_file
   \<and> sublist ''getCachedData<PricePoint[]>(cacheKey, true)'' patched_file
   \<and> sublist ''getCachedData<{ price: number; change: number; changePercent: number }>(cacheKey, true)'' patched_file"
proof -
  have 1: "prefix new_signature patched_file"
    using new_func_parts(1) patched_file_parts(1) by (rule prefix_order.order_trans)
  have 2: "sublist bypass_branch patched_file"
    using new_func_parts(2) prefix_imp_sublist[OF patched_file_parts(1)]
    by (rule sublist_order.order_trans)
  have 3: "sublist ''getCachedData<PricePoint[]>(cacheKey, true)'' patched_file"
    using new_func_parts(3) patched_file_parts(2) by (rule sublist_order.order_trans)
  have 4: "sublist ''getCachedData<{ price: number; change: number; changePercent: number }>(cacheKey, true)'' patched_file"
    using new_func_parts(4) patched_file_parts(3) by (rule sublist_order.order_trans)
  from minimal_run(1,2) 1 2 3 4 show ?thesis by simp
qed

text \<open>
  Claim C8, as stated: without the dot-matches-all flag the regular expression step
  changes nothing on a text that holds the old function definition. It fails: every
  dot of the pattern is escaped, so the flag has nothing to act on, and without it the
  step replaces the definition all the same.
\<close>

theorem without_dotall_counterexample:
  "re_sub old_func new_func old_text False = Some new_func \<and> new_func \<noteq> old_text
   \<and> re_sub old_func new_func old_text True = Some new_func"
  using replace_scan_hit[of old_text new_func "[]"] lengths
  by (auto simp: re_sub_old_func)

text \<open>
  Claim C8, amended: the regular expression step gives the same result with and
  without the dot-matches-all flag on every text, and on a text that holds the old
  function definition it changes the text either way.
\<close>

theorem dotall_makes_no_difference:
  "re_sub old_func new_func s False = re_sub old_func new_func s True
   \<and> (sublist old_text s \<longrightarrow> re_sub old_func new_func s False \<noteq> Some s)"
  by (simp add: re_sub_old_func replace_scan_changes lengths)

theorem dotall_makes_no_difference_witness:
  "sublist old_text old_text \<and> re_sub old_func new_func old_text False \<noteq> Some old_text
   \<and> re_sub old_func new_func old_text False = re_sub old_func new_func old_text True"
  using dotall_makes_no_difference[of old_text] by auto

text \<open>
  Claim C9, as stated: on every host the separator in the path constant is the
  directory separator of the host. It fails on a POSIX host: the constant is written
  with backslashes, holds no slash, and is there the name of one file.
\<close>

theorem posix_separator_counterexample:
  "split (os_sep Posix) FILE_PATH = [FILE_PATH] \<and> os_sep Posix \<notin> set FILE_PATH"
  by (simp add: FILE_PATH_def raw_def backslash_def)

text \<open>
  Claim C9, amended: the path is a constant of the script, the only path whose file a
  run touches; it is a relative path on both kinds of host, and its components
  \<open>worker\<close>, \<open>src\<close>, \<open>integrations\<close>, \<open>twelvedata.ts\<close> are separated by backslashes, the
  directory separator of Windows.
\<close>
theorem path_constant:
  "split (os_sep Windows) FILE_PATH = [''worker'', ''src'', ''integrations'', ''twelvedata.ts'']
   \<and> \<not> is_absolute pl FILE_PATH
   \<and> (p \<noteq> FILE_PATH \<longrightarrow> files (snd (main w)) p = files w p)"
proof -
  have "\<not> is_absolute pl FILE_PATH"
    by (cases pl) (simp_all add: FILE_PATH_def raw_def backslash_def)
  moreover have "split (os_sep Windows) FILE_PATH =
      [''worker'', ''src'', ''integrations'', ''twelvedata.ts'']"
    by (simp add: FILE_PATH_def raw_def backslash_def)
  ultimately show ?thesis by (simp add: main_other_paths)
qed

theorem path_constant_witness:
  "''notes.txt'' \<noteq> FILE_PATH
   \<and> files (snd (main (text_world minimal_file))) ''notes.txt'' = None"
proof -
  have ne: "''notes.txt'' \<noteq> FILE_PATH"
    by (simp add: FILE_PATH_def raw_def)
  with path_constant[of Windows "''notes.txt''" "text_world minimal_file"]
  show ?thesis by (simp add: text_world_def)
qed

text \<open>
  Claim C10. Each of the three steps replaces every occurrence of its old text, not
  only the first: wherever the old text stands, between any \<open>u\<close> and \<open>v\<close>, it is
  replaced, and the step goes on in \<open>u\<close> and in \<open>v\<close>.
\<close>

theorem every_occurrence_replaced:
  "(\<exists>u' v'. re_sub old_func new_func u True = Some u' \<and> re_sub old_func new_func v True = Some v'
        \<and> re_sub old_func new_func (u @ old_text @ v) True = Some (u' @ new_func @ v'))
   \<and> str_replace (u @ candles_old @ v) candles_old candles_new =
       str_replace u candles_old candles_new @ candles_new @ str_replace v candles_old candles_new
   \<and> str_replace (u @ quote_old @ v) quote_old quote_new =
       str_replace u quote_old quote_new @ quote_new @ str_replace v quote_old quote_new"
  by (simp add: re_sub_old_func str_replace_scan replace_scan_occurrence no_self_overlap)

end
